theory Spec2Isabelle
  imports Complex_Main
begin

section \<open>Data model\<close>

text \<open>
  The two batch components, \<^verbatim>\<open>BatchCookieModal.tsx\<close> (bulk credential import) and
  \<^verbatim>\<open>BatchRefreshModal.tsx\<close> (bulk status refresh), hold the same worker pool. The
  embedding keeps one copy of the pool and a tag saying which component it runs in; the
  tag decides the two places where the components differ (the local format check before
  the remote call, and how a rejection is turned into a message).
\<close>

datatype site = CookieAdd | StatusRefresh

text \<open>The union type of the \<^verbatim>\<open>status\<close> field, in the order of the source.\<close>

datatype status = Pending | Processing | Success | Error | Cancelled

text \<open>
  The error texts. The three literals of the source are Chinese and are kept as
  constructors: \<^verbatim>\<open>InvalidFormat\<close> is the literal of line 117 of
  \<^verbatim>\<open>BatchCookieModal.tsx\<close> (the cookie format is invalid), \<^verbatim>\<open>AddFailed\<close> the
  default of line 141 (adding failed), \<^verbatim>\<open>RefreshFailed\<close> the default of lines 132 and
  139 of \<^verbatim>\<open>BatchRefreshModal.tsx\<close> (refreshing failed); \<^verbatim>\<open>Detail s\<close> is a text
  taken from the server's reply.
\<close>

datatype message = InvalidFormat | AddFailed | RefreshFailed | Detail string

text \<open>
  What a successful call leaves in the record: \<^verbatim>\<open>organizationUuid\<close> for the credential
  import, \<^verbatim>\<open>previousStatus\<close> and \<^verbatim>\<open>newStatus\<close> for the refresh.
\<close>

datatype payload = OrganizationUuid string | StatusChange string string

text \<open>
  \<^verbatim>\<open>CookieResult\<close> and \<^verbatim>\<open>RefreshResultItem\<close>: \<^verbatim>\<open>item\<close> is the \<^verbatim>\<open>cookie\<close> of the
  first and the \<^verbatim>\<open>organizationUuid\<close> of the second; the optional fields are options.
\<close>

record result =
  item :: string
  status :: status
  error :: "message option"
  payload :: "payload option"

text \<open>
  What \<^verbatim>\<open>error.response?.data?.detail\<close> is when the remote call rejects: absent, a
  string, or an object whose \<^verbatim>\<open>message\<close> field is a string or is not.
\<close>

datatype detail = NoDetail | DetailString string | DetailObject "string option"

datatype outcome = Resolved payload | Rejected detail

text \<open>
  Where one \<^verbatim>\<open>processOne\<close> call stands. \<^verbatim>\<open>NotStarted\<close>: \<^verbatim>\<open>Array.from\<close> has not
  called it yet; \<^verbatim>\<open>Top\<close>: at the head of \<^verbatim>\<open>while (true)\<close>; \<^verbatim>\<open>Claimed i\<close>: index
  \<^verbatim>\<open>i\<close> is marked as processing and the \<^verbatim>\<open>try\<close> block is about to run;
  \<^verbatim>\<open>Awaiting i\<close>: suspended at the \<^verbatim>\<open>await\<close> of the remote call for \<^verbatim>\<open>i\<close>;
  \<^verbatim>\<open>Exited\<close>: returned.
\<close>

datatype pc = NotStarted | Top | Claimed nat | Awaiting nat | Exited

text \<open>
  An observation log, which the source does not have and which no transition reads:
  \<^verbatim>\<open>Claim w i\<close> when worker \<^verbatim>\<open>w\<close> receives index \<^verbatim>\<open>i\<close> below \<^verbatim>\<open>totalCount\<close> from
  \<^verbatim>\<open>nextIndex++\<close>, \<^verbatim>\<open>Invoke w i\<close> when it calls the remote operation for \<^verbatim>\<open>i\<close>,
  \<^verbatim>\<open>Commit i\<close> when a success or an error is written to record \<^verbatim>\<open>i\<close>.
\<close>

datatype event = Claim nat nat | Invoke nat nat | Commit nat

text \<open>
  The component: its React state (\<^verbatim>\<open>concurrency\<close>, \<^verbatim>\<open>isProcessing\<close>,
  \<^verbatim>\<open>showResults\<close>, \<^verbatim>\<open>results\<close>), the ref \<^verbatim>\<open>cancelledRef\<close>, the calls of
  \<^verbatim>\<open>toast.info\<close> (each with its \<^verbatim>\<open>removedCount\<close>), and the locals of the running
  submission (\<^verbatim>\<open>items\<close> is \<^verbatim>\<open>cookieLines\<close> or \<^verbatim>\<open>organizationUuids\<close>, then
  \<^verbatim>\<open>nextIndex\<close>, \<^verbatim>\<open>totalCount\<close>, and the \<^verbatim>\<open>workers\<close> array as the position of each
  \<^verbatim>\<open>processOne\<close> call). \<^verbatim>\<open>concurrency\<close> is a JavaScript number; the select offers
  1, 2, 3, 5, 10 and 20, the code itself never checks it. Every \<^verbatim>\<open>setResults\<close> of the
  pool passes an updater function, and React applies updaters in the order of the calls;
  the model applies each one where it is called, so \<^verbatim>\<open>results\<close> runs through every value
  a render can see.
\<close>

record modal =
  site :: site
  concurrency :: int
  isProcessing :: bool
  showResults :: bool
  results :: "result list"
  cancelledRef :: bool
  toasts :: "nat list"
  items :: "string list"
  nextIndex :: nat
  totalCount :: nat
  workers :: "pc list"
  events :: "event list"

text \<open>The component as \<^verbatim>\<open>useState\<close> and \<^verbatim>\<open>useRef\<close> create it, with the chosen concurrency.\<close>

definition mount :: "site \<Rightarrow> int \<Rightarrow> modal" where
  "mount st c =
     \<lparr> site = st, concurrency = c, isProcessing = False, showResults = False,
       results = [], cancelledRef = False, toasts = [], items = [],
       nextIndex = 0, totalCount = 0, workers = [], events = [] \<rparr>"

section \<open>Strings\<close>

text \<open>
  Strings are lists of 8-bit code units. \<^verbatim>\<open>is_space\<close> lists the code points below 256
  that \<^verbatim>\<open>String.prototype.trim\<close> removes (tab, line feed, vertical tab, form feed,
  carriage return, space, no-break space).
\<close>

definition is_space :: "char \<Rightarrow> bool" where
  "is_space c = (c \<in> set [CHR 0x09, CHR 0x0A, CHR 0x0B, CHR 0x0C, CHR 0x0D, CHR 0x20, CHR 0xA0])"

definition trim :: "string \<Rightarrow> string" where
  "trim s = rev (dropWhile is_space (rev (dropWhile is_space s)))"

text \<open>\<^verbatim>\<open>s.split(sep)\<close> for a one-character separator: the empty string gives one empty piece.\<close>

fun split :: "char \<Rightarrow> string \<Rightarrow> string list" where
  "split sep [] = [[]]"
| "split sep (c # cs) =
     (if c = sep then [] # split sep cs
      else (case split sep cs of [] \<Rightarrow> [[c]] | l # ls \<Rightarrow> (c # l) # ls))"

definition startsWith :: "string \<Rightarrow> string \<Rightarrow> bool" where
  "startsWith s p = (take (length p) s = p)"

text \<open>\<^verbatim>\<open>validateAndProcessCookie\<close>, lines 36 to 46 of \<^verbatim>\<open>BatchCookieModal.tsx\<close>.\<close>

definition validateAndProcessCookie :: "string \<Rightarrow> bool \<times> string" where
  "validateAndProcessCookie cookieValue =
     (let trimmed = trim cookieValue;
          processedValue =
            (if startsWith trimmed ''sk-ant-sid01-'' then ''sessionKey='' @ trimmed else trimmed);
          isValid = startsWith processedValue ''sessionKey=sk-ant-sid01-''
      in (isValid, processedValue))"

section \<open>Building the work list\<close>

text \<open>
  \<^verbatim>\<open>cookies.split('\n').map(line => line.trim()).filter(line => line.length > 0)\<close>
\<close>

definition rawLines :: "string \<Rightarrow> string list" where
  "rawLines cookies = filter (\<lambda>line. 0 < length line) (map trim (split (CHR 0x0A) cookies))"

text \<open>
  \<^verbatim>\<open>[...new Set(xs)]\<close>: a Set keeps its elements in insertion order and \<^verbatim>\<open>add\<close> of an
  element it already has changes nothing.
\<close>

definition set_add :: "'a list \<Rightarrow> 'a \<Rightarrow> 'a list" where
  "set_add elems x = (if x \<in> set elems then elems else elems @ [x])"

definition uniqueLines :: "'a list \<Rightarrow> 'a list" where
  "uniqueLines xs = foldl set_add [] xs"

definition removedCount :: "'a list \<Rightarrow> nat" where
  "removedCount xs = length xs - length (uniqueLines xs)"

text \<open>
  The wording of the specification, for comparison with \<^verbatim>\<open>uniqueLines\<close>: exact-match
  deduplication that keeps the first occurrence of every value, in order.
\<close>

fun first_occurrences :: "'a list \<Rightarrow> 'a list" where
  "first_occurrences [] = []"
| "first_occurrences (x # xs) = x # first_occurrences (filter (\<lambda>y. y \<noteq> x) xs)"

text \<open>
  \<^verbatim>\<open>Math.min(concurrency, totalCount)\<close> and \<^verbatim>\<open>Array.from({ length: workerCount }, ...)\<close>:
  a length that is zero or negative gives the empty array.
\<close>

definition workerCount :: "int \<Rightarrow> nat \<Rightarrow> nat" where
  "workerCount c n = nat (min c (int n))"

text \<open>
  The part of a submission that both components share (lines 68 to 81 and 157 to 158 of
  \<^verbatim>\<open>BatchCookieModal.tsx\<close>, lines 71 to 83 and 148 to 149 of
  \<^verbatim>\<open>BatchRefreshModal.tsx\<close>): reset the flag, show the results, one pending record per
  item, the cursor at 0, and the array of workers, none of them called yet.
\<close>

definition startPool :: "string list \<Rightarrow> modal \<Rightarrow> modal" where
  "startPool lines m =
     m \<lparr> cancelledRef := False, isProcessing := True, showResults := True,
         results := map (\<lambda>x. \<lparr> item = x, status = Pending, error = None, payload = None \<rparr>) lines,
         items := lines, nextIndex := 0, totalCount := length lines,
         workers := replicate (workerCount (concurrency m) (length lines)) NotStarted,
         events := [] \<rparr>"

text \<open>
  \<^verbatim>\<open>handleSubmit\<close> of \<^verbatim>\<open>BatchCookieModal.tsx\<close> up to the creation of the workers: it
  returns at once, changing nothing, when no line is left; it removes duplicates and
  calls \<^verbatim>\<open>toast.info\<close> with their number when there is one.
\<close>

definition handleSubmit :: "string \<Rightarrow> modal \<Rightarrow> modal" where
  "handleSubmit cookies m =
     (let lines = rawLines cookies in
      if length lines = 0 then m
      else startPool (uniqueLines lines)
             (if 0 < removedCount lines then m \<lparr> toasts := toasts m @ [removedCount lines] \<rparr> else m))"

text \<open>
  \<^verbatim>\<open>startProcessing\<close> of \<^verbatim>\<open>BatchRefreshModal.tsx\<close> up to the creation of the workers:
  the property \<^verbatim>\<open>organizationUuids\<close> is used as it comes.
\<close>

definition startProcessing :: "string list \<Rightarrow> modal \<Rightarrow> modal" where
  "startProcessing organizationUuids m = startPool organizationUuids m"

section \<open>Derived counts and progress\<close>

definition getProcessingCount :: "modal \<Rightarrow> nat" where
  "getProcessingCount m = length (filter (\<lambda>r. status r = Processing) (results m))"





definition terminal :: "status \<Rightarrow> bool" where
  "terminal st = (st = Success \<or> st = Error \<or> st = Cancelled)"



section \<open>The worker pool\<close>

text \<open>
  The message a rejection leaves in the record. \<^verbatim>\<open>BatchCookieModal.tsx\<close>, line 141:
  \<^verbatim>\<open>error.response?.data?.detail?.message || AddFailed\<close>; a string has no
  \<^verbatim>\<open>message\<close>, and an empty one is falsy. \<^verbatim>\<open>BatchRefreshModal.tsx\<close>, lines 130 to
  139: \<^verbatim>\<open>detail?.message || detail || RefreshFailed\<close>, replaced by the default when it
  is not a string. \<^verbatim>\<open>DetailObject None\<close> is an object whose \<^verbatim>\<open>message\<close> is absent.
\<close>

fun errorMessage :: "site \<Rightarrow> detail \<Rightarrow> message" where
  "errorMessage CookieAdd (DetailObject (Some msg)) = (if msg = [] then AddFailed else Detail msg)"
| "errorMessage CookieAdd d = AddFailed"
| "errorMessage StatusRefresh (DetailObject (Some msg)) =
     (if msg = [] then RefreshFailed else Detail msg)"
| "errorMessage StatusRefresh (DetailString s) = (if s = [] then RefreshFailed else Detail s)"
| "errorMessage StatusRefresh d = RefreshFailed"

text \<open>
  The head of the loop, from \<^verbatim>\<open>const i = nextIndex++\<close> to the record being marked as
  processing (lines 86 to 106 of \<^verbatim>\<open>BatchCookieModal.tsx\<close>, 87 to 107 of
  \<^verbatim>\<open>BatchRefreshModal.tsx\<close>). The cursor advances before anything is tested. Past the
  end the worker returns; with the flag set it marks record \<^verbatim>\<open>i\<close> as cancelled if that
  record is pending, and returns; else it marks it as processing. Every index written
  is below the length of \<^verbatim>\<open>results\<close> (lemma \<^verbatim>\<open>shape_reachable\<close> with the test against
  \<^verbatim>\<open>totalCount\<close>), so the list update never meets the case in which JavaScript would
  extend the array.
\<close>

definition claimNext :: "nat \<Rightarrow> modal \<Rightarrow> modal" where
  "claimNext w m =
     (let i = nextIndex m; m1 = m \<lparr> nextIndex := i + 1 \<rparr> in
      if totalCount m \<le> i then m1 \<lparr> workers := (workers m)[w := Exited] \<rparr>
      else if cancelledRef m then
        m1 \<lparr> results :=
               (if i < length (results m) \<and> status (results m ! i) = Pending
                then (results m)[i := (results m ! i) \<lparr> status := Cancelled \<rparr>]
                else results m),
             workers := (workers m)[w := Exited],
             events := events m @ [Claim w i] \<rparr>
      else
        m1 \<lparr> results := (results m)[i := (results m ! i) \<lparr> status := Processing \<rparr>],
             workers := (workers m)[w := Claimed i],
             events := events m @ [Claim w i] \<rparr>)"

text \<open>
  The \<^verbatim>\<open>try\<close> block up to the \<^verbatim>\<open>await\<close>. In the credential import a cookie that fails
  \<^verbatim>\<open>validateAndProcessCookie\<close> gets its error at once and the loop continues, with no
  remote call; otherwise the remote operation is called and the worker is suspended.
  The call returns a promise, so its failure reaches the \<^verbatim>\<open>catch\<close> block after the
  \<^verbatim>\<open>await\<close>, as a rejection.
\<close>

definition invoke :: "nat \<Rightarrow> nat \<Rightarrow> modal \<Rightarrow> modal" where
  "invoke w i m =
     (if site m = CookieAdd \<and> \<not> fst (validateAndProcessCookie (items m ! i)) then
        m \<lparr> results := (results m)[i := (results m ! i) \<lparr> status := Error, error := Some InvalidFormat \<rparr>],
            workers := (workers m)[w := Top],
            events := events m @ [Commit i] \<rparr>
      else
        m \<lparr> workers := (workers m)[w := Awaiting i], events := events m @ [Invoke w i] \<rparr>)"

text \<open>
  After the \<^verbatim>\<open>await\<close>: the success record when the promise resolves, the \<^verbatim>\<open>catch\<close>
  block when it rejects; then back to the head of the loop.
\<close>

definition settle :: "nat \<Rightarrow> nat \<Rightarrow> outcome \<Rightarrow> modal \<Rightarrow> modal" where
  "settle w i out m =
     m \<lparr> results :=
           (results m)[i :=
              (case out of
                 Resolved p \<Rightarrow> (results m ! i) \<lparr> status := Success, payload := Some p \<rparr>
               | Rejected d \<Rightarrow>
                   (results m ! i) \<lparr> status := Error, error := Some (errorMessage (site m) d) \<rparr>)],
         workers := (workers m)[w := Top],
         events := events m @ [Commit i] \<rparr>"

text \<open>
  After \<^verbatim>\<open>await Promise.allSettled(workers)\<close>: the sweep, only when the flag is set, and
  \<^verbatim>\<open>setIsProcessing(false)\<close>.
\<close>

definition sweep :: "result list \<Rightarrow> result list" where
  "sweep rs = map (\<lambda>r. if status r = Pending then r \<lparr> status := Cancelled \<rparr> else r) rs"

definition finish :: "modal \<Rightarrow> modal" where
  "finish m = (if cancelledRef m then m \<lparr> results := sweep (results m) \<rparr> else m) \<lparr> isProcessing := False \<rparr>"

text \<open>
  What can happen next. \<^verbatim>\<open>Start w\<close>: \<^verbatim>\<open>Array.from\<close> calls \<^verbatim>\<open>processOne\<close> for slot
  \<^verbatim>\<open>w\<close>. \<^verbatim>\<open>Run w\<close>: worker \<^verbatim>\<open>w\<close> executes its next piece of synchronous code.
  \<^verbatim>\<open>Settle w out\<close>: the promise worker \<^verbatim>\<open>w\<close> awaits settles with \<^verbatim>\<open>out\<close>.
  \<^verbatim>\<open>Cancel\<close>: \<^verbatim>\<open>handleCancel\<close>. \<^verbatim>\<open>Finish\<close>: the continuation of
  \<^verbatim>\<open>handleSubmit\<close> or \<^verbatim>\<open>startProcessing\<close> after all workers have returned.
\<close>

datatype action = Start nat | Run nat | Settle nat outcome | Cancel | Finish

text \<open>The effect of an action where the code it stands for can run at all.\<close>

fun fire :: "action \<Rightarrow> modal \<Rightarrow> modal option" where
  "fire (Start w) m =
     (if w < length (workers m) \<and> workers m ! w = NotStarted
      then Some (m \<lparr> workers := (workers m)[w := Top] \<rparr>) else None)"
| "fire (Run w) m =
     (if w < length (workers m) then
        (case workers m ! w of
           Top \<Rightarrow> Some (claimNext w m)
         | Claimed i \<Rightarrow> Some (invoke w i m)
         | _ \<Rightarrow> None)
      else None)"
| "fire (Settle w out) m =
     (if w < length (workers m) then
        (case workers m ! w of Awaiting i \<Rightarrow> Some (settle w i out m) | _ \<Rightarrow> None)
      else None)"
| "fire Cancel m = Some (m \<lparr> cancelledRef := True \<rparr>)"
| "fire Finish m =
     (if isProcessing m \<and> list_all (\<lambda>p. p = Exited) (workers m) then Some (finish m) else None)"

text \<open>
  The cooperative scheduler of JavaScript: synchronous code runs to its next
  \<^verbatim>\<open>await\<close> or to its return before anything else happens. A worker that is at
  \<^verbatim>\<open>Top\<close> or \<^verbatim>\<open>Claimed\<close> is in the middle of synchronous code. \<^verbatim>\<open>Array.from\<close> calls
  the workers in order, each after the one before has reached its first \<^verbatim>\<open>await\<close> or
  returned. A promise settles, and the click that calls \<^verbatim>\<open>handleCancel\<close> is handled,
  only when no synchronous code is running and all workers have been called; the cancel
  button needs a run in progress, that is a worker that has not returned.
\<close>

definition running :: "pc \<Rightarrow> bool" where
  "running p = (case p of Top \<Rightarrow> True | Claimed i \<Rightarrow> True | _ \<Rightarrow> False)"

definition awaiting :: "pc \<Rightarrow> bool" where
  "awaiting p = (case p of Awaiting i \<Rightarrow> True | _ \<Rightarrow> False)"

definition idle :: "modal \<Rightarrow> bool" where
  "idle m = (\<not> list_ex running (workers m) \<and> \<not> list_ex (\<lambda>p. p = NotStarted) (workers m))"

fun scheduled :: "action \<Rightarrow> modal \<Rightarrow> bool" where
  "scheduled (Start w) m =
     (\<not> list_ex running (workers m) \<and> \<not> list_ex (\<lambda>p. p = NotStarted) (take w (workers m)))"
| "scheduled (Run w) m = True"
| "scheduled (Settle w out) m = idle m"
| "scheduled Cancel m = (idle m \<and> list_ex awaiting (workers m))"
| "scheduled Finish m = True"

definition step :: "action \<Rightarrow> modal \<Rightarrow> modal option" where
  "step a m = (if scheduled a m then fire a m else None)"

fun run :: "action list \<Rightarrow> modal \<Rightarrow> modal option" where
  "run [] m = Some m"
| "run (a # as) m = (case step a m of None \<Rightarrow> None | Some m' \<Rightarrow> run as m')"

text \<open>
  The states of a run: what a submission of either component leaves (for the credential
  import one that has at least one line, the other case being the early return), and
  every state a scheduled action leads to from there. A mounted component runs one
  submission: once \<^verbatim>\<open>showResults\<close> is set the footer no longer offers the start button.
\<close>

inductive reachable :: "modal \<Rightarrow> bool" where
  submitted_cookies: "rawLines cookies \<noteq> [] \<Longrightarrow> reachable (handleSubmit cookies (mount CookieAdd c))"
| submitted_uuids: "reachable (startProcessing organizationUuids (mount StatusRefresh c))"
| stepped: "reachable m \<Longrightarrow> step a m = Some m' \<Longrightarrow> reachable m'"

subsection \<open>Reading the observation log\<close>

text \<open>The workers that received index \<^verbatim>\<open>i\<close>, one entry for each time it was handed out.\<close>

fun receivers :: "nat \<Rightarrow> event list \<Rightarrow> nat list" where
  "receivers i [] = []"
| "receivers i (Claim w j # es) = (if j = i then w # receivers i es else receivers i es)"
| "receivers i (e # es) = receivers i es"

text \<open>The number of calls of the remote operation for index \<^verbatim>\<open>i\<close>.\<close>

fun invocations :: "nat \<Rightarrow> event list \<Rightarrow> nat" where
  "invocations i [] = 0"
| "invocations i (Invoke w j # es) = (if j = i then Suc (invocations i es) else invocations i es)"
| "invocations i (e # es) = invocations i es"

text \<open>The number of success or error records written for index \<^verbatim>\<open>i\<close>.\<close>

fun commits :: "nat \<Rightarrow> event list \<Rightarrow> nat" where
  "commits i [] = 0"
| "commits i (Commit j # es) = (if j = i then Suc (commits i es) else commits i es)"
| "commits i (e # es) = commits i es"

section \<open>Invariants of a run\<close>

text \<open>Worker position \<^verbatim>\<open>p\<close> has index \<^verbatim>\<open>i\<close> in hand.\<close>

definition holds :: "pc \<Rightarrow> nat \<Rightarrow> bool" where
  "holds p i = (p = Claimed i \<or> p = Awaiting i)"

text \<open>The lists keep the sizes the submission gave them.\<close>

definition shape :: "modal \<Rightarrow> bool" where
  "shape m =
     (length (results m) = totalCount m \<and> length (items m) = totalCount m \<and>
      length (workers m) = workerCount (concurrency m) (totalCount m))"

text \<open>
  An index in hand is below the cursor and below \<^verbatim>\<open>totalCount\<close>, its record is
  processing, and no other worker has it.
\<close>

definition owned :: "modal \<Rightarrow> bool" where
  "owned m =
     (\<forall>w < length (workers m). \<forall>i. holds (workers m ! w) i \<longrightarrow>
        i < totalCount m \<and> i < nextIndex m \<and> status (results m ! i) = Processing \<and>
        (\<forall>v < length (workers m). holds (workers m ! v) i \<longrightarrow> v = w))"

text \<open>Below the cursor no record is pending; at and above it, while the run lasts, all are.\<close>

definition claimed_not_pending :: "modal \<Rightarrow> bool" where
  "claimed_not_pending m =
     (\<forall>i < totalCount m. i < nextIndex m \<longrightarrow> status (results m ! i) \<noteq> Pending)"

definition unclaimed_pending :: "modal \<Rightarrow> bool" where
  "unclaimed_pending m =
     (isProcessing m \<longrightarrow> (\<forall>i < totalCount m. nextIndex m \<le> i \<longrightarrow> status (results m ! i) = Pending))"

text \<open>Once the run is over every worker has returned.\<close>

definition finished_exited :: "modal \<Rightarrow> bool" where
  "finished_exited m = (\<not> isProcessing m \<longrightarrow> (\<forall>w < length (workers m). workers m ! w = Exited))"

text \<open>A processing record is in the hand of some worker.\<close>

definition processing_owned :: "modal \<Rightarrow> bool" where
  "processing_owned m =
     (\<forall>i < totalCount m. status (results m ! i) = Processing \<longrightarrow>
        (\<exists>w < length (workers m). holds (workers m ! w) i))"

text \<open>A worker returns only past the end of the list or with the flag set.\<close>

definition exit_reason :: "modal \<Rightarrow> bool" where
  "exit_reason m =
     ((\<exists>w < length (workers m). workers m ! w = Exited) \<longrightarrow>
        cancelledRef m \<or> totalCount m < nextIndex m)"

text \<open>Without the flag no record is cancelled.\<close>

definition cancelled_needs_flag :: "modal \<Rightarrow> bool" where
  "cancelled_needs_flag m =
     (\<not> cancelledRef m \<longrightarrow> (\<forall>i < totalCount m. status (results m ! i) \<noteq> Cancelled))"

text \<open>After the end of a run that had a worker, no record is pending.\<close>

definition finished_swept :: "modal \<Rightarrow> bool" where
  "finished_swept m =
     (\<not> isProcessing m \<and> workers m \<noteq> [] \<longrightarrow>
        (\<forall>i < totalCount m. status (results m ! i) \<noteq> Pending))"

text \<open>The log against the state: claims, remote calls, committed results.\<close>

definition claim_log :: "modal \<Rightarrow> bool" where
  "claim_log m =
     (\<forall>i. length (receivers i (events m)) =
        (if i < nextIndex m \<and> i < totalCount m then 1 else 0))"

definition invoke_log :: "modal \<Rightarrow> bool" where
  "invoke_log m =
     (\<forall>i. invocations i (events m) =
        (if (\<exists>w < length (workers m). workers m ! w = Awaiting i) \<or>
            (i < totalCount m \<and>
              (status (results m ! i) = Success \<or>
               (status (results m ! i) = Error \<and> error (results m ! i) \<noteq> Some InvalidFormat)))
         then 1 else 0))"

definition commit_log :: "modal \<Rightarrow> bool" where
  "commit_log m =
     (\<forall>i. commits i (events m) =
        (if i < totalCount m \<and> (status (results m ! i) = Success \<or> status (results m ! i) = Error)
         then 1 else 0))"

definition pool_inv :: "modal \<Rightarrow> bool" where
  "pool_inv m =
     (shape m \<and> owned m \<and> claimed_not_pending m \<and> unclaimed_pending m \<and>
      finished_exited m \<and> processing_owned m \<and> exit_reason m \<and>
      cancelled_needs_flag m \<and> finished_swept m \<and>
      claim_log m \<and> invoke_log m \<and> commit_log m)"



section \<open>Concrete runs\<close>

text \<open>
  The end-to-end scenario of the specification: items A, B and C, concurrency 2, the
  operation succeeds for A and C and is rejected for B with the text \<^verbatim>\<open>invalid\<close>. Both
  workers are called and reach their \<^verbatim>\<open>await\<close>; A settles and its worker takes C; B is
  rejected and its worker finds the list exhausted; C settles; the run finishes.
\<close>

definition scenario_start :: modal where
  "scenario_start = startProcessing [''A'', ''B'', ''C''] (mount StatusRefresh 2)"

definition scenario_schedule :: "action list" where
  "scenario_schedule =
     [Start 0, Run 0, Run 0, Start 1, Run 1, Run 1,
      Settle 0 (Resolved (StatusChange ''valid'' ''valid'')), Run 0, Run 0,
      Settle 1 (Rejected (DetailString ''invalid'')), Run 1,
      Settle 0 (Resolved (StatusChange ''valid'' ''valid'')), Run 0,
      Finish]"

definition scenario_final :: modal where
  "scenario_final =
     \<lparr> site = StatusRefresh, concurrency = 2, isProcessing = False, showResults = True,
       results =
         [\<lparr> item = ''A'', status = Success, error = None,
             payload = Some (StatusChange ''valid'' ''valid'') \<rparr>,
          \<lparr> item = ''B'', status = Error, error = Some (Detail ''invalid''), payload = None \<rparr>,
          \<lparr> item = ''C'', status = Success, error = None,
             payload = Some (StatusChange ''valid'' ''valid'') \<rparr>],
       cancelledRef = False, toasts = [], items = [''A'', ''B'', ''C''],
       nextIndex = 5, totalCount = 3, workers = [Exited, Exited],
       events =
         [Claim 0 0, Invoke 0 0, Claim 1 1, Invoke 1 1, Commit 0, Claim 0 2, Invoke 0 2,
          Commit 1, Commit 2] \<rparr>"

text \<open>
  Two states on the way: \<^verbatim>\<open>scenario_busy\<close> after the first six actions, with both
  workers suspended, and \<^verbatim>\<open>scenario_mid\<close> after the seventh, when A has succeeded.
\<close>

definition scenario_busy :: modal where
  "scenario_busy =
     \<lparr> site = StatusRefresh, concurrency = 2, isProcessing = True, showResults = True,
       results =
         [\<lparr> item = ''A'', status = Processing, error = None, payload = None \<rparr>,
          \<lparr> item = ''B'', status = Processing, error = None, payload = None \<rparr>,
          \<lparr> item = ''C'', status = Pending, error = None, payload = None \<rparr>],
       cancelledRef = False, toasts = [], items = [''A'', ''B'', ''C''],
       nextIndex = 2, totalCount = 3, workers = [Awaiting 0, Awaiting 1],
       events = [Claim 0 0, Invoke 0 0, Claim 1 1, Invoke 1 1] \<rparr>"

definition scenario_mid :: modal where
  "scenario_mid =
     \<lparr> site = StatusRefresh, concurrency = 2, isProcessing = True, showResults = True,
       results =
         [\<lparr> item = ''A'', status = Success, error = None,
             payload = Some (StatusChange ''valid'' ''valid'') \<rparr>,
          \<lparr> item = ''B'', status = Processing, error = None, payload = None \<rparr>,
          \<lparr> item = ''C'', status = Pending, error = None, payload = None \<rparr>],
       cancelledRef = False, toasts = [], items = [''A'', ''B'', ''C''],
       nextIndex = 2, totalCount = 3, workers = [Top, Awaiting 1],
       events = [Claim 0 0, Invoke 0 0, Claim 1 1, Invoke 1 1, Commit 0] \<rparr>"










text \<open>The text of the deduplication example: the lines a, b, a, c, b.\<close>

definition example_cookies :: string where
  "example_cookies =
     ''a'' @ [CHR 0x0A] @ ''b'' @ [CHR 0x0A] @ ''a'' @ [CHR 0x0A] @ ''c'' @ [CHR 0x0A] @ ''b''"

section \<open>Auxiliary facts\<close>

lemma holds_simps [simp]:
  "holds NotStarted i = False" "holds Top i = False" "holds Exited i = False"
  "holds (Claimed j) i = (j = i)" "holds (Awaiting j) i = (j = i)"
  by (auto simp: holds_def)

lemma awaiting_simps [simp]:
  "awaiting NotStarted = False" "awaiting Top = False" "awaiting Exited = False"
  "awaiting (Claimed j) = False" "awaiting (Awaiting j) = True"
  by (auto simp: awaiting_def)

lemma receivers_append: "receivers i (es @ fs) = receivers i es @ receivers i fs"
  by (induction i es rule: receivers.induct) auto

lemma invocations_append: "invocations i (es @ fs) = invocations i es + invocations i fs"
  by (induction i es rule: invocations.induct) auto

lemma commits_append: "commits i (es @ fs) = commits i es + commits i fs"
  by (induction i es rule: commits.induct) auto

lemma errorMessage_not_format [simp]: "errorMessage st d \<noteq> InvalidFormat"
  by (cases "(st, d)" rule: errorMessage.cases) auto

subsection \<open>Reading the invariants\<close>

lemma shape_results: "shape m \<Longrightarrow> length (results m) = totalCount m"
  by (simp add: shape_def)

lemma owned_below: "holds (workers m ! v) i \<Longrightarrow> owned m \<Longrightarrow> v < length (workers m) \<Longrightarrow> i < nextIndex m"
  by (auto simp: owned_def)

lemma owned_range: "holds (workers m ! v) i \<Longrightarrow> owned m \<Longrightarrow> v < length (workers m) \<Longrightarrow> i < totalCount m"
  by (auto simp: owned_def)

lemma owned_status: "holds (workers m ! v) i \<Longrightarrow> owned m \<Longrightarrow> v < length (workers m) \<Longrightarrow> status (results m ! i) = Processing"
  by (auto simp: owned_def)

lemma owned_unique: "holds (workers m ! v) i \<Longrightarrow> holds (workers m ! u) i \<Longrightarrow> owned m \<Longrightarrow> v < length (workers m) \<Longrightarrow> u < length (workers m) \<Longrightarrow> u = v"
  by (auto simp: owned_def)

lemma claimed_not_pendingD:
  "claimed_not_pending m \<Longrightarrow> i < totalCount m \<Longrightarrow> i < nextIndex m \<Longrightarrow> status (results m ! i) \<noteq> Pending"
  by (simp add: claimed_not_pending_def)

lemma unclaimed_pendingD:
  "unclaimed_pending m \<Longrightarrow> isProcessing m \<Longrightarrow> i < totalCount m \<Longrightarrow> nextIndex m \<le> i \<Longrightarrow> status (results m ! i) = Pending"
  by (simp add: unclaimed_pending_def)

lemma finished_exitedD:
  "finished_exited m \<Longrightarrow> w < length (workers m) \<Longrightarrow> workers m ! w \<noteq> Exited \<Longrightarrow> isProcessing m"
  by (auto simp: finished_exited_def)

lemma processing_ownedD:
  "processing_owned m \<Longrightarrow> i < totalCount m \<Longrightarrow> status (results m ! i) = Processing \<Longrightarrow>
   \<exists>w < length (workers m). holds (workers m ! w) i"
  by (simp add: processing_owned_def)

lemma exit_reasonD:
  "exit_reason m \<Longrightarrow> w < length (workers m) \<Longrightarrow> workers m ! w = Exited \<Longrightarrow>
   cancelledRef m \<or> totalCount m < nextIndex m"
  by (auto simp: exit_reason_def)

lemma cancelled_needs_flagD:
  "cancelled_needs_flag m \<Longrightarrow> \<not> cancelledRef m \<Longrightarrow> i < totalCount m \<Longrightarrow> status (results m ! i) \<noteq> Cancelled"
  by (simp add: cancelled_needs_flag_def)


lemma claim_logD:
  "claim_log m \<Longrightarrow> length (receivers i (events m)) = (if i < nextIndex m \<and> i < totalCount m then 1 else 0)"
  by (simp add: claim_log_def)

lemma invoke_logD:
  "invoke_log m \<Longrightarrow> invocations i (events m) =
     (if (\<exists>w < length (workers m). workers m ! w = Awaiting i) \<or>
         (i < totalCount m \<and>
           (status (results m ! i) = Success \<or>
            (status (results m ! i) = Error \<and> error (results m ! i) \<noteq> Some InvalidFormat)))
      then 1 else 0)"
  by (simp add: invoke_log_def)

lemma commit_logD:
  "commit_log m \<Longrightarrow> commits i (events m) =
     (if i < totalCount m \<and> (status (results m ! i) = Success \<or> status (results m ! i) = Error)
      then 1 else 0)"
  by (simp add: commit_log_def)

subsection \<open>Some worker awaits an index, before and after one worker moves\<close>

lemma ex_nth_update:
  assumes "w < length xs"
  shows "(\<exists>v < length xs. xs[w := p] ! v = a) = (p = a \<or> (\<exists>v < length xs. v \<noteq> w \<and> xs ! v = a))"
proof
  assume "\<exists>v < length xs. xs[w := p] ! v = a"
  then obtain v where v: "v < length xs" "xs[w := p] ! v = a" by blast
  show "p = a \<or> (\<exists>v < length xs. v \<noteq> w \<and> xs ! v = a)"
  proof (cases "v = w")
    case True
    with v assms show ?thesis by simp
  next
    case False
    with v have "xs ! v = a" by simp
    with v False show ?thesis by blast
  qed
next
  assume r: "p = a \<or> (\<exists>v < length xs. v \<noteq> w \<and> xs ! v = a)"
  show "\<exists>v < length xs. xs[w := p] ! v = a"
  proof (cases "p = a")
    case True
    with assms have "xs[w := p] ! w = a" by simp
    with assms show ?thesis by blast
  next
    case False
    with r obtain v where "v < length xs" "v \<noteq> w" "xs ! v = a" by blast
    then have "v < length xs \<and> xs[w := p] ! v = a" by simp
    then show ?thesis by blast
  qed
qed

lemma ex_nth_split:
  assumes "w < length xs"
  shows "(\<exists>v < length xs. xs ! v = a) = (xs ! w = a \<or> (\<exists>v < length xs. v \<noteq> w \<and> xs ! v = a))"
  using assms by (metis)

lemma awaiting_update_other:
  assumes "w < length xs" "\<not> awaiting (xs ! w)" "\<not> awaiting p"
  shows "(\<exists>v < length xs. xs[w := p] ! v = Awaiting i) = (\<exists>v < length xs. xs ! v = Awaiting i)"
proof -
  have "p \<noteq> Awaiting i" "xs ! w \<noteq> Awaiting i" using assms by auto
  then have "(p = Awaiting i \<or> (\<exists>v < length xs. v \<noteq> w \<and> xs ! v = Awaiting i)) =
             (\<exists>v < length xs. xs ! v = Awaiting i)"
    by metis
  then show ?thesis by (simp only: ex_nth_update [OF assms(1)])
qed

lemma awaiting_update_enter:
  assumes "w < length xs" "\<not> awaiting (xs ! w)"
  shows "(\<exists>v < length xs. xs[w := Awaiting i] ! v = Awaiting j) =
         (j = i \<or> (\<exists>v < length xs. xs ! v = Awaiting j))"
proof -
  have "xs ! w \<noteq> Awaiting j" using assms by auto
  then have "(Awaiting i = Awaiting j \<or> (\<exists>v < length xs. v \<noteq> w \<and> xs ! v = Awaiting j)) =
             (j = i \<or> (\<exists>v < length xs. xs ! v = Awaiting j))"
    by (metis pc.inject(2))
  then show ?thesis by (simp only: ex_nth_update [OF assms(1)])
qed

lemma awaiting_update_leave:
  assumes "w < length xs" "xs ! w = Awaiting i" "\<not> awaiting p"
    and uniq: "\<And>v. v < length xs \<Longrightarrow> xs ! v = Awaiting i \<Longrightarrow> v = w"
  shows "(\<exists>v < length xs. xs[w := p] ! v = Awaiting j) =
         (j \<noteq> i \<and> (\<exists>v < length xs. xs ! v = Awaiting j))"
proof -
  have p: "p \<noteq> Awaiting j" using assms(3) by auto
  have "(p = Awaiting j \<or> (\<exists>v < length xs. v \<noteq> w \<and> xs ! v = Awaiting j)) =
        (j \<noteq> i \<and> (\<exists>v < length xs. xs ! v = Awaiting j))"
  proof (cases "j = i")
    case True
    have "\<not> (\<exists>v < length xs. v \<noteq> w \<and> xs ! v = Awaiting i)" using uniq by blast
    with p True show ?thesis by blast
  next
    case False
    with assms(2) have "xs ! w \<noteq> Awaiting j" by simp
    with p False show ?thesis by metis
  qed
  then show ?thesis by (simp only: ex_nth_update [OF assms(1)])
qed

subsection \<open>What each transition changes\<close>

lemma sweep_status: "i < length rs \<Longrightarrow> status (sweep rs ! i) = (if status (rs ! i) = Pending then Cancelled else status (rs ! i))"
  by (simp add: sweep_def)

lemma sweep_error: "i < length rs \<Longrightarrow> error (sweep rs ! i) = error (rs ! i)"
  by (simp add: sweep_def)

lemma length_sweep [simp]: "length (sweep rs) = length rs"
  by (simp add: sweep_def)

lemma finish_fields [simp]:
  "workers (finish m) = workers m" "totalCount (finish m) = totalCount m"
  "nextIndex (finish m) = nextIndex m" "events (finish m) = events m"
  "cancelledRef (finish m) = cancelledRef m" "isProcessing (finish m) = False"
  "items (finish m) = items m" "concurrency (finish m) = concurrency m"
  "site (finish m) = site m"
  "results (finish m) = (if cancelledRef m then sweep (results m) else results m)"
  by (auto simp: finish_def)

lemma claimNext_fields [simp]:
  "nextIndex (claimNext w m) = Suc (nextIndex m)"
  "totalCount (claimNext w m) = totalCount m"
  "isProcessing (claimNext w m) = isProcessing m"
  "cancelledRef (claimNext w m) = cancelledRef m"
  "concurrency (claimNext w m) = concurrency m"
  "site (claimNext w m) = site m"
  "items (claimNext w m) = items m"
  "length (results (claimNext w m)) = length (results m)"
  "workers (claimNext w m) =
     (workers m)[w := (if totalCount m \<le> nextIndex m \<or> cancelledRef m then Exited
                       else Claimed (nextIndex m))]"
  "events (claimNext w m) =
     events m @ (if nextIndex m < totalCount m then [Claim w (nextIndex m)] else [])"
  by (auto simp: claimNext_def Let_def)

lemma claimNext_status:
  "length (results m) = totalCount m \<Longrightarrow>
   status (results (claimNext w m) ! j) =
     (if j = nextIndex m \<and> j < totalCount m then
        (if cancelledRef m then
           (if status (results m ! j) = Pending then Cancelled else status (results m ! j))
         else Processing)
      else status (results m ! j))"
  by (auto simp: claimNext_def Let_def nth_list_update)

lemma claimNext_error:
  "length (results m) = totalCount m \<Longrightarrow>
   error (results (claimNext w m) ! j) = error (results m ! j)"
  by (auto simp: claimNext_def Let_def nth_list_update)

lemma invoke_fields [simp]:
  "nextIndex (invoke w i m) = nextIndex m"
  "totalCount (invoke w i m) = totalCount m"
  "isProcessing (invoke w i m) = isProcessing m"
  "cancelledRef (invoke w i m) = cancelledRef m"
  "concurrency (invoke w i m) = concurrency m"
  "site (invoke w i m) = site m"
  "items (invoke w i m) = items m"
  "length (results (invoke w i m)) = length (results m)"
  by (auto simp: invoke_def)

text \<open>Whether \<^verbatim>\<open>invoke\<close> takes the branch of the failed format check.\<close>

lemma invoke_workers:
  "workers (invoke w i m) =
     (workers m)[w := (if site m = CookieAdd \<and> \<not> fst (validateAndProcessCookie (items m ! i))
                       then Top else Awaiting i)]"
  by (auto simp: invoke_def)

lemma invoke_events:
  "events (invoke w i m) =
     events m @ [if site m = CookieAdd \<and> \<not> fst (validateAndProcessCookie (items m ! i))
                 then Commit i else Invoke w i]"
  by (auto simp: invoke_def)

lemma invoke_status:
  "i < length (results m) \<Longrightarrow>
   status (results (invoke w i m) ! j) =
     (if j = i \<and> site m = CookieAdd \<and> \<not> fst (validateAndProcessCookie (items m ! i))
      then Error else status (results m ! j))"
  by (auto simp: invoke_def nth_list_update)

lemma invoke_error:
  "i < length (results m) \<Longrightarrow>
   error (results (invoke w i m) ! j) =
     (if j = i \<and> site m = CookieAdd \<and> \<not> fst (validateAndProcessCookie (items m ! i))
      then Some InvalidFormat else error (results m ! j))"
  by (auto simp: invoke_def nth_list_update)

lemma settle_fields [simp]:
  "nextIndex (settle w i out m) = nextIndex m"
  "totalCount (settle w i out m) = totalCount m"
  "isProcessing (settle w i out m) = isProcessing m"
  "cancelledRef (settle w i out m) = cancelledRef m"
  "concurrency (settle w i out m) = concurrency m"
  "site (settle w i out m) = site m"
  "items (settle w i out m) = items m"
  "length (results (settle w i out m)) = length (results m)"
  "workers (settle w i out m) = (workers m)[w := Top]"
  "events (settle w i out m) = events m @ [Commit i]"
  by (auto simp: settle_def)

lemma settle_status:
  "i < length (results m) \<Longrightarrow>
   status (results (settle w i out m) ! j) =
     (if j = i then (case out of Resolved p \<Rightarrow> Success | Rejected d \<Rightarrow> Error)
      else status (results m ! j))"
  by (auto simp: settle_def nth_list_update split: outcome.splits)

lemma settle_error:
  "i < length (results m) \<Longrightarrow> j \<noteq> i \<Longrightarrow>
   error (results (settle w i out m) ! j) = error (results m ! j)"
  by (auto simp: settle_def nth_list_update split: outcome.splits)

lemma settle_error_own:
  "i < length (results m) \<Longrightarrow> status (results (settle w i out m) ! i) = Error \<Longrightarrow>
   error (results (settle w i out m) ! i) \<noteq> Some InvalidFormat"
  by (auto simp: settle_def nth_list_update split: outcome.splits)

subsection \<open>Each transition keeps the invariant\<close>

lemma inv_startPool: "pool_inv (startPool lines m)"
  by (auto simp: pool_inv_def startPool_def shape_def owned_def claimed_not_pending_def
      unclaimed_pending_def finished_exited_def processing_owned_def exit_reason_def
      cancelled_needs_flag_def finished_swept_def claim_log_def invoke_log_def commit_log_def)

lemma inv_start:
  assumes "pool_inv m" "w < length (workers m)" "workers m ! w = NotStarted"
  shows "pool_inv (m \<lparr> workers := (workers m)[w := Top] \<rparr>)"
proof -
  let ?m = "m \<lparr> workers := (workers m)[w := Top] \<rparr>"
  from assms(1) have i: "shape m" "owned m" "claimed_not_pending m" "unclaimed_pending m"
    "finished_exited m" "processing_owned m" "exit_reason m" "cancelled_needs_flag m"
    "finished_swept m" "claim_log m" "invoke_log m" "commit_log m"
    by (simp_all add: pool_inv_def)
  have 1: "shape ?m" using i(1) by (simp add: shape_def)
  have 2: "owned ?m" using i(2) assms(2,3) unfolding owned_def
    by (auto simp: nth_list_update split: if_splits)
  have 3: "claimed_not_pending ?m" using i(3) by (simp add: claimed_not_pending_def)
  have 4: "unclaimed_pending ?m" using i(4) by (simp add: unclaimed_pending_def)
  have 5: "finished_exited ?m" using i(5) assms(2,3) unfolding finished_exited_def
    by auto
  have 6: "processing_owned ?m"
    unfolding processing_owned_def
  proof (intro allI impI)
    fix j assume "j < totalCount ?m" "status (results ?m ! j) = Processing"
    then obtain v where v: "v < length (workers m)" "holds (workers m ! v) j"
      using processing_ownedD [OF i(6), of j] by auto
    with assms(3) have "v \<noteq> w" by auto
    with v have "v < length (workers ?m) \<and> holds (workers ?m ! v) j" by simp
    then show "\<exists>v < length (workers ?m). holds (workers ?m ! v) j" by blast
  qed
  have 7: "exit_reason ?m" using i(7) assms(2) unfolding exit_reason_def
    by (auto simp: nth_list_update split: if_splits)
  have 8: "cancelled_needs_flag ?m" using i(8) by (simp add: cancelled_needs_flag_def)
  have 9: "finished_swept ?m" using i(9) by (simp add: finished_swept_def)
  have 10: "claim_log ?m" using i(10) by (simp add: claim_log_def)
  have 11: "invoke_log ?m" using i(11) assms(2,3) unfolding invoke_log_def
    by (simp add: awaiting_update_other)
  have 12: "commit_log ?m" using i(12) by (simp add: commit_log_def)
  show ?thesis unfolding pool_inv_def using 1 2 3 4 5 6 7 8 9 10 11 12 by blast
qed

lemma inv_cancel:
  assumes "pool_inv m"
  shows "pool_inv (m \<lparr> cancelledRef := True \<rparr>)"
proof -
  let ?m = "m \<lparr> cancelledRef := True \<rparr>"
  from assms(1) have i: "shape m" "owned m" "claimed_not_pending m" "unclaimed_pending m"
    "finished_exited m" "processing_owned m" "exit_reason m" "cancelled_needs_flag m"
    "finished_swept m" "claim_log m" "invoke_log m" "commit_log m"
    by (simp_all add: pool_inv_def)
  have 1: "shape ?m" using i(1) by (simp add: shape_def)
  have 2: "owned ?m" using i(2) by (simp add: owned_def)
  have 3: "claimed_not_pending ?m" using i(3) by (simp add: claimed_not_pending_def)
  have 4: "unclaimed_pending ?m" using i(4) by (simp add: unclaimed_pending_def)
  have 5: "finished_exited ?m" using i(5) by (simp add: finished_exited_def)
  have 6: "processing_owned ?m" using i(6) by (simp add: processing_owned_def)
  have 7: "exit_reason ?m" by (simp add: exit_reason_def)
  have 8: "cancelled_needs_flag ?m" by (simp add: cancelled_needs_flag_def)
  have 9: "finished_swept ?m" using i(9) by (simp add: finished_swept_def)
  have 10: "claim_log ?m" using i(10) by (simp add: claim_log_def)
  have 11: "invoke_log ?m" using i(11) by (simp add: invoke_log_def)
  have 12: "commit_log ?m" using i(12) by (simp add: commit_log_def)
  show ?thesis unfolding pool_inv_def using 1 2 3 4 5 6 7 8 9 10 11 12 by blast
qed

lemma inv_finish:
  assumes "pool_inv m" "isProcessing m" "list_all (\<lambda>p. p = Exited) (workers m)"
  shows "pool_inv (finish m)"
proof -
  from assms(1) have i: "shape m" "owned m" "claimed_not_pending m" "unclaimed_pending m"
    "finished_exited m" "processing_owned m" "exit_reason m" "cancelled_needs_flag m"
    "finished_swept m" "claim_log m" "invoke_log m" "commit_log m"
    by (simp_all add: pool_inv_def)
  have len: "length (results m) = totalCount m" using i(1) by (simp add: shape_def)
  have ex: "\<And>w. w < length (workers m) \<Longrightarrow> workers m ! w = Exited"
    using assms(3) by (simp add: list_all_length)
  have 1: "shape (finish m)" using i(1) by (simp add: shape_def)
  have 2: "owned (finish m)" using ex unfolding owned_def by auto
  have 3: "claimed_not_pending (finish m)" using i(3) len unfolding claimed_not_pending_def
    by (simp add: sweep_status)
  have 4: "unclaimed_pending (finish m)" by (simp add: unclaimed_pending_def)
  have 5: "finished_exited (finish m)" using ex by (simp add: finished_exited_def)
  have 6: "processing_owned (finish m)" using i(6) len unfolding processing_owned_def
    by (simp add: sweep_status)
  have 7: "exit_reason (finish m)" using i(7) by (simp add: exit_reason_def)
  have 8: "cancelled_needs_flag (finish m)" using i(8) by (simp add: cancelled_needs_flag_def)
  have 9: "finished_swept (finish m)"
  proof (cases "cancelledRef m")
    case True
    then show ?thesis using len by (simp add: finished_swept_def sweep_status)
  next
    case False
    show ?thesis unfolding finished_swept_def
    proof (intro impI allI)
      fix j assume a: "\<not> isProcessing (finish m) \<and> workers (finish m) \<noteq> []" and j: "j < totalCount (finish m)"
      then have "0 < length (workers m)" by simp
      with ex have "workers m ! 0 = Exited" by blast
      with exit_reasonD [OF i(7), of 0] False \<open>0 < length (workers m)\<close>
      have "totalCount m < nextIndex m" by blast
      with claimed_not_pendingD [OF i(3), of j] j False
      show "status (results (finish m) ! j) \<noteq> Pending" by simp
    qed
  qed
  have 10: "claim_log (finish m)" using i(10) by (simp add: claim_log_def)
  have 11: "invoke_log (finish m)" using i(11) len unfolding invoke_log_def
    by (simp add: sweep_status sweep_error)
  have 12: "commit_log (finish m)" using i(12) len unfolding commit_log_def
    by (simp add: sweep_status)
  show ?thesis unfolding pool_inv_def using 1 2 3 4 5 6 7 8 9 10 11 12 by blast
qed

lemma inv_claimNext:
  assumes "pool_inv m" "w < length (workers m)" "workers m ! w = Top"
  shows "pool_inv (claimNext w m)"
proof -
  let ?m = "claimNext w m"
  let ?i = "nextIndex m"
  from assms(1) have i: "shape m" "owned m" "claimed_not_pending m" "unclaimed_pending m"
    "finished_exited m" "processing_owned m" "exit_reason m" "cancelled_needs_flag m"
    "finished_swept m" "claim_log m" "invoke_log m" "commit_log m"
    by (simp_all add: pool_inv_def)
  have len: "length (results m) = totalCount m" using i(1) by (simp add: shape_def)
  have proc: "isProcessing m" using finished_exitedD [OF i(5) assms(2)] assms(3) by simp
  have pend: "?i < totalCount m \<Longrightarrow> status (results m ! ?i) = Pending"
    using unclaimed_pendingD [OF i(4) proc, of ?i] by simp
  note st = claimNext_status [OF len]
  have 1: "shape ?m" using i(1) by (simp add: shape_def)
  have 2: "owned ?m"
    unfolding owned_def
    using i(2) len assms(2,3)
    by (auto simp: st nth_list_update
        dest: owned_below owned_range owned_status owned_unique split: if_splits)
  have 3: "claimed_not_pending ?m"
    unfolding claimed_not_pending_def
    using claimed_not_pendingD [OF i(3)] by (auto simp: st less_Suc_eq)
  have 4: "unclaimed_pending ?m"
    unfolding unclaimed_pending_def
    using unclaimed_pendingD [OF i(4)] by (auto simp: st)
  have 5: "finished_exited ?m" 
    unfolding finished_exited_def using proc by simp
  have 6: "processing_owned ?m"
    unfolding processing_owned_def
  proof (intro allI impI)
    fix j assume j: "j < totalCount ?m" "status (results ?m ! j) = Processing"
    show "\<exists>v < length (workers ?m). holds (workers ?m ! v) j"
    proof (cases "j = ?i")
      case True
      with j pend have "\<not> cancelledRef m" "\<not> totalCount m \<le> ?i" by (auto simp: st split: if_splits)
      with assms(2) True have "w < length (workers ?m) \<and> holds (workers ?m ! w) j" by simp
      then show ?thesis by blast
    next
      case False
      with j have "status (results m ! j) = Processing" by (simp add: st)
      then obtain v where v: "v < length (workers m)" "holds (workers m ! v) j"
        using processing_ownedD [OF i(6), of j] j by auto
      with assms(3) have "v \<noteq> w" by auto
      with v have "v < length (workers ?m) \<and> holds (workers ?m ! v) j" by simp
      then show ?thesis by blast
    qed
  qed
  have 7: "exit_reason ?m"
    unfolding exit_reason_def
    using exit_reasonD [OF i(7)] assms(2)
    by (auto simp: nth_list_update split: if_splits)
  have 8: "cancelled_needs_flag ?m"
    unfolding cancelled_needs_flag_def
    using cancelled_needs_flagD [OF i(8)] by (auto simp: st)
  have 9: "finished_swept ?m"
    unfolding finished_swept_def using proc by simp
  have 10: "claim_log ?m"
    unfolding claim_log_def
    using claim_logD [OF i(10)] by (auto simp: receivers_append)
  have 11: "invoke_log ?m"
    unfolding invoke_log_def
  proof
    fix j
    have a: "(\<exists>v < length (workers ?m). workers ?m ! v = Awaiting j) =
             (\<exists>v < length (workers m). workers m ! v = Awaiting j)"
      using assms(2,3) by (simp add: awaiting_update_other)
    have b: "j < totalCount m \<Longrightarrow> (status (results ?m ! j) = Success) = (status (results m ! j) = Success)"
            "j < totalCount m \<Longrightarrow> (status (results ?m ! j) = Error) = (status (results m ! j) = Error)"
      using pend by (auto simp: st)
    have c: "invocations j (events ?m) = invocations j (events m)"
      by (simp add: invocations_append)
    show "invocations j (events ?m) =
        (if (\<exists>w < length (workers ?m). workers ?m ! w = Awaiting j) \<or>
            (j < totalCount ?m \<and>
              (status (results ?m ! j) = Success \<or>
               (status (results ?m ! j) = Error \<and> error (results ?m ! j) \<noteq> Some InvalidFormat)))
         then 1 else 0)"
      unfolding a c invoke_logD [OF i(11), of j]
      using b by (auto simp: claimNext_error [OF len])
  qed
  have 12: "commit_log ?m"
    unfolding commit_log_def
  proof
    fix j
    have b: "j < totalCount m \<Longrightarrow> (status (results ?m ! j) = Success) = (status (results m ! j) = Success)"
            "j < totalCount m \<Longrightarrow> (status (results ?m ! j) = Error) = (status (results m ! j) = Error)"
      using pend by (auto simp: st)
    have c: "commits j (events ?m) = commits j (events m)"
      by (simp add: commits_append)
    show "commits j (events ?m) =
        (if j < totalCount ?m \<and> (status (results ?m ! j) = Success \<or> status (results ?m ! j) = Error)
         then 1 else 0)"
      unfolding c commit_logD [OF i(12), of j] using b by auto
  qed
  show ?thesis unfolding pool_inv_def using 1 2 3 4 5 6 7 8 9 10 11 12 by blast
qed

lemma inv_invoke:
  assumes "pool_inv m" "w < length (workers m)" "workers m ! w = Claimed i"
  shows "pool_inv (invoke w i m)"
proof -
  let ?m = "invoke w i m"
  let ?bad = "site m = CookieAdd \<and> \<not> fst (validateAndProcessCookie (items m ! i))"
  from assms(1) have i: "shape m" "owned m" "claimed_not_pending m" "unclaimed_pending m"
    "finished_exited m" "processing_owned m" "exit_reason m" "cancelled_needs_flag m"
    "finished_swept m" "claim_log m" "invoke_log m" "commit_log m"
    by (simp_all add: pool_inv_def)
  have len: "length (results m) = totalCount m" using i(1) by (simp add: shape_def)
  have h: "holds (workers m ! w) i" using assms(3) by simp
  have proc: "isProcessing m" using finished_exitedD [OF i(5) assms(2)] assms(3) by simp
  have ir: "i < totalCount m" "i < nextIndex m" "status (results m ! i) = Processing"
    using owned_range [OF h i(2) assms(2)] owned_below [OF h i(2) assms(2)]
      owned_status [OF h i(2) assms(2)] by auto
  have il: "i < length (results m)" using ir len by simp
  have uniq: "\<And>v. v < length (workers m) \<Longrightarrow> holds (workers m ! v) i \<Longrightarrow> v = w"
    using owned_unique [OF h _ i(2) assms(2)] by blast
  note st = invoke_status [OF il] and er = invoke_error [OF il]
  have 1: "shape ?m" using i(1) by (simp add: shape_def invoke_workers)
  have 2: "owned ?m"
    unfolding owned_def
  proof (intro allI impI)
    fix v j assume v: "v < length (workers ?m)" and hv: "holds (workers ?m ! v) j"
    have vl: "v < length (workers m)" using v by (simp add: invoke_workers)
    show "j < totalCount ?m \<and> j < nextIndex ?m \<and> status (results ?m ! j) = Processing \<and>
          (\<forall>u < length (workers ?m). holds (workers ?m ! u) j \<longrightarrow> u = v)"
    proof (cases "v = w")
      case True
      with hv assms(2) have nb: "\<not> ?bad" and ji: "j = i"
        by (auto simp: invoke_workers split: if_splits)
      have "\<And>u. u < length (workers ?m) \<Longrightarrow> holds (workers ?m ! u) j \<Longrightarrow> u = v"
      proof -
        fix u assume u: "u < length (workers ?m)" "holds (workers ?m ! u) j"
        show "u = v"
        proof (cases "u = w")
          case True
          with \<open>v = w\<close> show ?thesis by simp
        next
          case False
          with u ji have "u < length (workers m)" "holds (workers m ! u) i"
            by (simp_all add: invoke_workers)
          then show ?thesis using uniq True by simp
        qed
      qed
      with ji ir nb show ?thesis by (simp add: st)
    next
      case False
      with hv have hm: "holds (workers m ! v) j" by (simp add: invoke_workers)
      have ne: "j \<noteq> i" using uniq [OF vl] hm False by auto
      have "\<And>u. u < length (workers ?m) \<Longrightarrow> holds (workers ?m ! u) j \<Longrightarrow> u = v"
      proof -
        fix u assume u: "u < length (workers ?m)" "holds (workers ?m ! u) j"
        have "u \<noteq> w" using u ne assms(2) by (auto simp: invoke_workers split: if_splits)
        with u have "u < length (workers m)" "holds (workers m ! u) j"
          by (simp_all add: invoke_workers)
        then show "u = v" using owned_unique [OF hm _ i(2) vl] by simp
      qed
      with ne owned_range [OF hm i(2) vl] owned_below [OF hm i(2) vl] owned_status [OF hm i(2) vl]
      show ?thesis by (simp add: st)
    qed
  qed
  have 3: "claimed_not_pending ?m"
    unfolding claimed_not_pending_def
    using claimed_not_pendingD [OF i(3)] by (auto simp: st)
  have 4: "unclaimed_pending ?m"
    unfolding unclaimed_pending_def
    using unclaimed_pendingD [OF i(4)] ir by (auto simp: st)
  have 5: "finished_exited ?m"
    unfolding finished_exited_def using proc by simp
  have 6: "processing_owned ?m"
    unfolding processing_owned_def
  proof (intro allI impI)
    fix j assume j: "j < totalCount ?m" "status (results ?m ! j) = Processing"
    then have old: "status (results m ! j) = Processing" by (auto simp: st split: if_splits)
    show "\<exists>v < length (workers ?m). holds (workers ?m ! v) j"
    proof (cases "j = i")
      case True
      with j have "\<not> ?bad" by (auto simp: st split: if_splits)
      with assms(2) True have "w < length (workers ?m) \<and> holds (workers ?m ! w) j"
        by (simp add: invoke_workers)
      then show ?thesis by blast
    next
      case False
      obtain v where v: "v < length (workers m)" "holds (workers m ! v) j"
        using processing_ownedD [OF i(6), of j] j old by auto
      with assms(3) False have "v \<noteq> w" by auto
      with v have "v < length (workers ?m) \<and> holds (workers ?m ! v) j"
        by (simp add: invoke_workers)
      then show ?thesis by blast
    qed
  qed
  have 7: "exit_reason ?m"
    unfolding exit_reason_def
    using exit_reasonD [OF i(7)] assms(2)
    by (auto simp: invoke_workers nth_list_update split: if_splits)
  have 8: "cancelled_needs_flag ?m"
    unfolding cancelled_needs_flag_def
    using cancelled_needs_flagD [OF i(8)] by (auto simp: st)
  have 9: "finished_swept ?m"
    unfolding finished_swept_def using proc by simp
  have 10: "claim_log ?m"
    unfolding claim_log_def
    using claim_logD [OF i(10)] by (auto simp: receivers_append invoke_events)
  have noaw: "\<not> (\<exists>v < length (workers m). workers m ! v = Awaiting i)"
  proof
    assume "\<exists>v < length (workers m). workers m ! v = Awaiting i"
    then obtain v where v: "v < length (workers m)" "workers m ! v = Awaiting i" by blast
    then have "v = w" using uniq [of v] by simp
    with v assms(3) show False by simp
  qed
  have zero: "invocations i (events m) = 0"
    using invoke_logD [OF i(11), of i] noaw ir by simp
  have czero: "commits i (events m) = 0"
    using commit_logD [OF i(12), of i] ir by simp
  have 11: "invoke_log ?m"
    unfolding invoke_log_def
  proof
    fix j
    show "invocations j (events ?m) =
        (if (\<exists>w < length (workers ?m). workers ?m ! w = Awaiting j) \<or>
            (j < totalCount ?m \<and>
              (status (results ?m ! j) = Success \<or>
               (status (results ?m ! j) = Error \<and> error (results ?m ! j) \<noteq> Some InvalidFormat)))
         then 1 else 0)"
    proof (cases ?bad)
      case True
      have wk: "workers ?m = (workers m)[w := Top]" and ev: "events ?m = events m @ [Commit i]"
        using True by (auto simp: invoke_workers invoke_events)
      have a: "(\<exists>v < length (workers ?m). workers ?m ! v = Awaiting j) =
               (\<exists>v < length (workers m). workers m ! v = Awaiting j)"
        using assms(2,3) by (simp add: wk awaiting_update_other)
      have c: "invocations j (events ?m) = invocations j (events m)"
        by (simp add: invocations_append ev)
      show ?thesis
        unfolding a c invoke_logD [OF i(11), of j]
        using True ir by (auto simp: st er)
    next
      case False
      have wk: "workers ?m = (workers m)[w := Awaiting i]" and ev: "events ?m = events m @ [Invoke w i]"
        using False by (auto simp: invoke_workers invoke_events)
      have a: "(\<exists>v < length (workers ?m). workers ?m ! v = Awaiting j) =
               (j = i \<or> (\<exists>v < length (workers m). workers m ! v = Awaiting j))"
        using assms(2,3) by (simp add: wk awaiting_update_enter)
      have c: "invocations j (events ?m) = invocations j (events m) + (if j = i then 1 else 0)"
        by (simp add: invocations_append ev)
      show ?thesis
      proof (cases "j = i")
        case True
        then show ?thesis unfolding a c using zero by simp
      next
        case neq: False
        then show ?thesis
          unfolding a c invoke_logD [OF i(11), of j]
          using False by (simp add: st er)
      qed
    qed
  qed
  have 12: "commit_log ?m"
    unfolding commit_log_def
  proof
    fix j
    have c: "commits j (events ?m) = commits j (events m) + (if j = i \<and> ?bad then 1 else 0)"
      by (simp add: commits_append invoke_events)
    show "commits j (events ?m) =
        (if j < totalCount ?m \<and> (status (results ?m ! j) = Success \<or> status (results ?m ! j) = Error)
         then 1 else 0)"
    proof (cases "j = i")
      case True
      then show ?thesis unfolding c using czero ir by (simp add: st)
    next
      case False
      then show ?thesis unfolding c commit_logD [OF i(12), of j] by (simp add: st)
    qed
  qed
  show ?thesis unfolding pool_inv_def using 1 2 3 4 5 6 7 8 9 10 11 12 by blast
qed

lemma inv_settle:
  assumes "pool_inv m" "w < length (workers m)" "workers m ! w = Awaiting i"
  shows "pool_inv (settle w i out m)"
proof -
  let ?m = "settle w i out m"
  from assms(1) have i: "shape m" "owned m" "claimed_not_pending m" "unclaimed_pending m"
    "finished_exited m" "processing_owned m" "exit_reason m" "cancelled_needs_flag m"
    "finished_swept m" "claim_log m" "invoke_log m" "commit_log m"
    by (simp_all add: pool_inv_def)
  have len: "length (results m) = totalCount m" using i(1) by (simp add: shape_def)
  have h: "holds (workers m ! w) i" using assms(3) by simp
  have proc: "isProcessing m" using finished_exitedD [OF i(5) assms(2)] assms(3) by simp
  have ir: "i < totalCount m" "i < nextIndex m" "status (results m ! i) = Processing"
    using owned_range [OF h i(2) assms(2)] owned_below [OF h i(2) assms(2)]
      owned_status [OF h i(2) assms(2)] by auto
  have il: "i < length (results m)" using ir len by simp
  have uniq: "\<And>v. v < length (workers m) \<Longrightarrow> holds (workers m ! v) i \<Longrightarrow> v = w"
    using owned_unique [OF h _ i(2) assms(2)] by blast
  note st = settle_status [OF il] and er = settle_error [OF il]
  have fin: "status (results ?m ! i) = Success \<or> status (results ?m ! i) = Error"
    by (simp add: st split: outcome.splits)
  have 1: "shape ?m" using i(1) by (simp add: shape_def)
  have 2: "owned ?m"
    unfolding owned_def
  proof (intro allI impI)
    fix v j assume v: "v < length (workers ?m)" and hv: "holds (workers ?m ! v) j"
    have vl: "v < length (workers m)" using v by simp
    have vw: "v \<noteq> w" using hv assms(2) by auto
    with hv have hm: "holds (workers m ! v) j" by simp
    have ne: "j \<noteq> i" using uniq [OF vl] hm vw by auto
    have "\<And>u. u < length (workers ?m) \<Longrightarrow> holds (workers ?m ! u) j \<Longrightarrow> u = v"
    proof -
      fix u assume u: "u < length (workers ?m)" "holds (workers ?m ! u) j"
      have "u \<noteq> w" using u assms(2) by auto
      with u have "u < length (workers m)" "holds (workers m ! u) j" by simp_all
      then show "u = v" using owned_unique [OF hm _ i(2) vl] by simp
    qed
    with ne owned_range [OF hm i(2) vl] owned_below [OF hm i(2) vl] owned_status [OF hm i(2) vl]
    show "j < totalCount ?m \<and> j < nextIndex ?m \<and> status (results ?m ! j) = Processing \<and>
          (\<forall>u < length (workers ?m). holds (workers ?m ! u) j \<longrightarrow> u = v)"
      by (simp add: st)
  qed
  have 3: "claimed_not_pending ?m"
    unfolding claimed_not_pending_def
    using claimed_not_pendingD [OF i(3)] by (auto simp: st split: outcome.splits)
  have 4: "unclaimed_pending ?m"
    unfolding unclaimed_pending_def
    using unclaimed_pendingD [OF i(4)] ir by (auto simp: st)
  have 5: "finished_exited ?m"
    unfolding finished_exited_def using proc by simp
  have 6: "processing_owned ?m"
    unfolding processing_owned_def
  proof (intro allI impI)
    fix j assume j: "j < totalCount ?m" "status (results ?m ! j) = Processing"
    then have ne: "j \<noteq> i" using fin by auto
    with j have old: "status (results m ! j) = Processing" by (simp add: st)
    obtain v where v: "v < length (workers m)" "holds (workers m ! v) j"
      using processing_ownedD [OF i(6), of j] j old by auto
    with assms(3) ne have "v \<noteq> w" by auto
    with v have "v < length (workers ?m) \<and> holds (workers ?m ! v) j" by simp
    then show "\<exists>v < length (workers ?m). holds (workers ?m ! v) j" by blast
  qed
  have 7: "exit_reason ?m"
    unfolding exit_reason_def
    using exit_reasonD [OF i(7)] assms(2)
    by (auto simp: nth_list_update split: if_splits)
  have 8: "cancelled_needs_flag ?m"
    unfolding cancelled_needs_flag_def
    using cancelled_needs_flagD [OF i(8)] by (auto simp: st split: outcome.splits)
  have 9: "finished_swept ?m"
    unfolding finished_swept_def using proc by simp
  have 10: "claim_log ?m"
    unfolding claim_log_def
    using claim_logD [OF i(10)] by (auto simp: receivers_append)
  have one: "invocations i (events m) = 1"
    using invoke_logD [OF i(11), of i] assms(2,3) by auto
  have czero: "commits i (events m) = 0"
    using commit_logD [OF i(12), of i] ir by simp
  have 11: "invoke_log ?m"
    unfolding invoke_log_def
  proof
    fix j
    have a: "(\<exists>v < length (workers ?m). workers ?m ! v = Awaiting j) =
             (j \<noteq> i \<and> (\<exists>v < length (workers m). workers m ! v = Awaiting j))"
    proof -
      have "\<And>v. v < length (workers m) \<Longrightarrow> workers m ! v = Awaiting i \<Longrightarrow> v = w"
        using uniq by simp
      then show ?thesis
        using awaiting_update_leave [OF assms(2) assms(3), of Top j] by simp
    qed
    have c: "invocations j (events ?m) = invocations j (events m)"
      by (simp add: invocations_append)
    show "invocations j (events ?m) =
        (if (\<exists>w < length (workers ?m). workers ?m ! w = Awaiting j) \<or>
            (j < totalCount ?m \<and>
              (status (results ?m ! j) = Success \<or>
               (status (results ?m ! j) = Error \<and> error (results ?m ! j) \<noteq> Some InvalidFormat)))
         then 1 else 0)"
    proof (cases "j = i")
      case True
      have "status (results ?m ! i) = Success \<or>
            (status (results ?m ! i) = Error \<and> error (results ?m ! i) \<noteq> Some InvalidFormat)"
        using fin settle_error_own [OF il, of w out] by blast
      with True ir show ?thesis unfolding c using one by simp
    next
      case False
      then show ?thesis unfolding a c invoke_logD [OF i(11), of j] by (simp add: st er)
    qed
  qed
  have 12: "commit_log ?m"
    unfolding commit_log_def
  proof
    fix j
    have c: "commits j (events ?m) = commits j (events m) + (if j = i then 1 else 0)"
      by (simp add: commits_append)
    show "commits j (events ?m) =
        (if j < totalCount ?m \<and> (status (results ?m ! j) = Success \<or> status (results ?m ! j) = Error)
         then 1 else 0)"
    proof (cases "j = i")
      case True
      then show ?thesis unfolding c using czero ir fin by simp
    next
      case False
      then show ?thesis unfolding c commit_logD [OF i(12), of j] by (simp add: st)
    qed
  qed
  show ?thesis unfolding pool_inv_def using 1 2 3 4 5 6 7 8 9 10 11 12 by blast
qed

lemma inv_fire:
  assumes "pool_inv m" "fire a m = Some m'"
  shows "pool_inv m'"
proof (cases a)
  case (Start w)
  with assms show ?thesis by (auto simp: inv_start split: if_splits)
next
  case (Run w)
  with assms show ?thesis by (auto simp: inv_claimNext inv_invoke split: if_splits pc.splits)
next
  case (Settle w out)
  with assms show ?thesis by (auto simp: inv_settle split: if_splits pc.splits)
next
  case Cancel
  with assms show ?thesis by (auto simp: inv_cancel)
next
  case Finish
  with assms show ?thesis by (auto simp: inv_finish split: if_splits)
qed

lemma step_fire: "step a m = Some m' \<Longrightarrow> fire a m = Some m'"
  by (simp add: step_def split: if_splits)

lemma inv_handleSubmit: "rawLines cookies \<noteq> [] \<Longrightarrow> pool_inv (handleSubmit cookies m)"
  by (simp add: handleSubmit_def Let_def inv_startPool)

lemma inv_reachable: "reachable m \<Longrightarrow> pool_inv m"
proof (induction rule: reachable.induct)
  case (submitted_cookies cookies c)
  then show ?case by (rule inv_handleSubmit)
next
  case (submitted_uuids organizationUuids c)
  show ?case by (simp add: startProcessing_def inv_startPool)
next
  case (stepped m a m')
  then show ?case using inv_fire step_fire by blast
qed

lemma reachable_run: "reachable m \<Longrightarrow> run as m = Some m' \<Longrightarrow> reachable m'"
proof (induction as arbitrary: m)
  case Nil
  then show ?case by simp
next
  case (Cons a as)
  then obtain m1 where s: "step a m = Some m1" and r: "run as m1 = Some m'"
    by (auto split: option.splits)
  from Cons.prems(1) s have "reachable m1" by (rule reachable.stepped)
  with r show ?case by (rule Cons.IH [rotated])
qed


subsection \<open>Counting records by status\<close>




subsection \<open>The end of a run\<close>



section \<open>Facts about the two runs and the work list\<close>

lemma scenario_run: "run scenario_schedule scenario_start = Some scenario_final"
  by code_simp




lemma example_lines: "rawLines example_cookies = [''a'', ''b'', ''a'', ''c'', ''b'']"
  by code_simp

subsection \<open>Deduplication\<close>

lemma foldl_set_add:
  "foldl set_add acc xs = acc @ first_occurrences (filter (\<lambda>x. x \<notin> set acc) xs)"
proof (induction xs arbitrary: acc)
  case Nil
  show ?case by simp
next
  case (Cons x xs)
  show ?case
  proof (cases "x \<in> set acc")
    case True
    then show ?thesis using Cons.IH [of acc] by (simp add: set_add_def)
  next
    case False
    have "filter (\<lambda>y. y \<notin> set (acc @ [x])) xs = filter (\<lambda>y. y \<noteq> x) (filter (\<lambda>y. y \<notin> set acc) xs)"
      by (induction xs) auto
    with False show ?thesis using Cons.IH [of "acc @ [x]"] by (simp add: set_add_def)
  qed
qed

lemma uniqueLines_first_occurrences: "uniqueLines xs = first_occurrences xs"
  using foldl_set_add [of "[]" xs] by (simp add: uniqueLines_def)

subsection \<open>The record at an index, before and after one action\<close>

lemma claimNext_nth:
  "length (results m) = totalCount m \<Longrightarrow>
   results (claimNext w m) ! j =
     (if j = nextIndex m \<and> j < totalCount m \<and> (cancelledRef m \<longrightarrow> status (results m ! j) = Pending)
      then (results m ! j) \<lparr> status := (if cancelledRef m then Cancelled else Processing) \<rparr>
      else results m ! j)"
  by (auto simp: claimNext_def Let_def nth_list_update)

lemma invoke_nth:
  "i < length (results m) \<Longrightarrow>
   results (invoke w i m) ! j =
     (if j = i \<and> site m = CookieAdd \<and> \<not> fst (validateAndProcessCookie (items m ! i))
      then (results m ! i) \<lparr> status := Error, error := Some InvalidFormat \<rparr>
      else results m ! j)"
  by (auto simp: invoke_def nth_list_update)

lemma settle_nth:
  "i < length (results m) \<Longrightarrow>
   results (settle w i out m) ! j =
     (if j = i then
        (case out of
           Resolved p \<Rightarrow> (results m ! i) \<lparr> status := Success, payload := Some p \<rparr>
         | Rejected d \<Rightarrow> (results m ! i) \<lparr> status := Error, error := Some (errorMessage (site m) d) \<rparr>)
      else results m ! j)"
  by (auto simp: settle_def nth_list_update)

lemma sweep_nth:
  "j < length rs \<Longrightarrow>
   sweep rs ! j = (if status (rs ! j) = Pending then (rs ! j) \<lparr> status := Cancelled \<rparr> else rs ! j)"
  by (simp add: sweep_def)

text \<open>
  The state machine of section 4.3 of the specification, read off the code: one action
  leaves a record as it is, or takes a pending record to processing (flag not set) or to
  cancelled (flag set) with its other fields unchanged, or takes a processing record to
  success with a payload or to error with a message.
\<close>

lemma fire_record:
  assumes inv: "pool_inv m" and f: "fire a m = Some m'" and j: "j < totalCount m"
  shows "results m' ! j = results m ! j \<or>
         (status (results m ! j) = Pending \<and> \<not> cancelledRef m \<and>
            results m' ! j = (results m ! j) \<lparr> status := Processing \<rparr>) \<or>
         (status (results m ! j) = Pending \<and> cancelledRef m \<and>
            results m' ! j = (results m ! j) \<lparr> status := Cancelled \<rparr>) \<or>
         (status (results m ! j) = Processing \<and>
            ((\<exists>p. results m' ! j = (results m ! j) \<lparr> status := Success, payload := Some p \<rparr>) \<or>
             (\<exists>e. results m' ! j = (results m ! j) \<lparr> status := Error, error := Some e \<rparr>)))"
proof -
  from inv have sh: "shape m" and ow: "owned m" and up: "unclaimed_pending m"
    and fe: "finished_exited m" by (simp_all add: pool_inv_def)
  have len: "length (results m) = totalCount m" using sh by (simp add: shape_def)
  show ?thesis
  proof (cases a)
    case (Start w)
    with f show ?thesis by (auto split: if_splits)
  next
    case Cancel
    with f show ?thesis by auto
  next
    case Finish
    with f have m': "m' = finish m" by (auto split: if_splits)
    show ?thesis using j len by (simp add: m' sweep_nth)
  next
    case (Settle w out)
    with f obtain i where w: "w < length (workers m)" "workers m ! w = Awaiting i"
      and m': "m' = settle w i out m"
      by (auto split: if_splits pc.splits)
    have h: "holds (workers m ! w) i" using w by simp
    have il: "i < length (results m)" using owned_range [OF h ow w(1)] len by simp
    have "status (results m ! i) = Processing" using owned_status [OF h ow w(1)] .
    then show ?thesis by (cases out) (auto simp: m' settle_nth [OF il])
  next
    case (Run w)
    with f have w: "w < length (workers m)" by (auto split: if_splits)
    show ?thesis
    proof (cases "workers m ! w")
      case Top
      with f Run w have m': "m' = claimNext w m" by simp
      have "isProcessing m" using finished_exitedD [OF fe w] Top by simp
      then have "nextIndex m < totalCount m \<Longrightarrow> status (results m ! nextIndex m) = Pending"
        using unclaimed_pendingD [OF up, of "nextIndex m"] by simp
      then show ?thesis by (auto simp: m' claimNext_nth [OF len])
    next
      case (Claimed i)
      with f Run w have m': "m' = invoke w i m" by simp
      have h: "holds (workers m ! w) i" using Claimed by simp
      have il: "i < length (results m)" using owned_range [OF h ow w] len by simp
      have "status (results m ! i) = Processing" using owned_status [OF h ow w] .
      then show ?thesis by (auto simp: m' invoke_nth [OF il])
    next
      case NotStarted
      with f Run w show ?thesis by simp
    next
      case (Awaiting i)
      with f Run w show ?thesis by simp
    next
      case Exited
      with f Run w show ?thesis by simp
    qed
  qed
qed

lemma fire_totalCount: "fire a m = Some m' \<Longrightarrow> totalCount m' = totalCount m"
  by (cases a) (auto split: if_splits pc.splits)






subsection \<open>The concrete runs, evaluated\<close>

lemma scenario_run_busy: "run (take 6 scenario_schedule) scenario_start = Some scenario_busy"
  by code_simp

lemma scenario_run_mid: "run (take 7 scenario_schedule) scenario_start = Some scenario_mid"
  by code_simp

lemma scenario_run_rest: "run (drop 7 scenario_schedule) scenario_mid = Some scenario_final"
  by code_simp

lemma scenario_start_reachable: "reachable scenario_start"
  unfolding scenario_start_def by (rule reachable.submitted_uuids)

lemma scenario_busy_reachable: "reachable scenario_busy"
  using reachable_run [OF scenario_start_reachable scenario_run_busy] .

lemma scenario_mid_reachable: "reachable scenario_mid"
  using reachable_run [OF scenario_start_reachable scenario_run_mid] .

lemma scenario_final_reachable: "reachable scenario_final"
  using reachable_run [OF scenario_start_reachable scenario_run] .




subsection \<open>Along a run\<close>



lemma run_keeps_terminal:
  assumes "reachable m" "run as m = Some m'" "i < totalCount m" "terminal (status (results m ! i))"
  shows "results m' ! i = results m ! i"
  using assms
proof (induction as arbitrary: m)
  case Nil
  then show ?case by simp
next
  case (Cons a as)
  then obtain m1 where s: "step a m = Some m1" and r: "run as m1 = Some m'"
    by (auto split: option.splits)
  have r1: "reachable m1" using Cons.prems(1) s by (rule reachable.stepped)
  have "results m1 ! i = results m ! i"
    using fire_record [OF inv_reachable [OF Cons.prems(1)] step_fire [OF s] Cons.prems(3)]
      Cons.prems(4) by (auto simp: terminal_def)
  moreover have "totalCount m1 = totalCount m" using fire_totalCount [OF step_fire [OF s]] .
  ultimately show ?case using Cons.IH [OF r1 r] Cons.prems(3,4) by simp
qed






section \<open>Exhaustiveness\<close>



section \<open>The shared cursor\<close>

lemma receivers_set: "set (receivers i es) = {w. Claim w i \<in> set es}"
  by (induction i es rule: receivers.induct) auto

lemma short_list_one_value: "length xs \<le> 1 \<Longrightarrow> a \<in> set xs \<Longrightarrow> b \<in> set xs \<Longrightarrow> a = b"
  by (cases xs) auto

text \<open>
  C2. In every state of a run, whatever the concurrency and the interleaving: index
  \<^verbatim>\<open>i\<close> has been handed out by \<^verbatim>\<open>nextIndex++\<close> exactly once if it is below the cursor
  and below \<^verbatim>\<open>totalCount\<close>, and never otherwise, so no index is handed out twice and
  none below the cursor is skipped; two workers that received the same index are the
  same worker; and when a run with a concurrency of at least 1 is complete and the flag
  was not set, every index below \<^verbatim>\<open>totalCount\<close> has been handed out exactly once.
\<close>

theorem claim_exactly_once:
  assumes "reachable m"
  shows "length (receivers i (events m)) = (if i < nextIndex m \<and> i < totalCount m then 1 else 0) \<and>
         (Claim w i \<in> set (events m) \<and> Claim v i \<in> set (events m) \<longrightarrow> w = v) \<and>
         (1 \<le> concurrency m \<and> \<not> isProcessing m \<and> \<not> cancelledRef m \<and> i < totalCount m \<longrightarrow>
            length (receivers i (events m)) = 1)"
proof -
  have inv: "pool_inv m" using assms by (rule inv_reachable)
  then have cl: "claim_log m" and sh: "shape m" and fe: "finished_exited m" and er: "exit_reason m"
    by (simp_all add: pool_inv_def)
  have a: "length (receivers i (events m)) = (if i < nextIndex m \<and> i < totalCount m then 1 else 0)"
    using cl by (rule claim_logD)
  then have le: "length (receivers i (events m)) \<le> 1" by simp
  have b: "Claim w i \<in> set (events m) \<and> Claim v i \<in> set (events m) \<longrightarrow> w = v"
    using short_list_one_value [OF le, of w v] by (simp add: receivers_set)
  have c: "1 \<le> concurrency m \<and> \<not> isProcessing m \<and> \<not> cancelledRef m \<and> i < totalCount m \<longrightarrow>
            length (receivers i (events m)) = 1"
  proof
    assume h: "1 \<le> concurrency m \<and> \<not> isProcessing m \<and> \<not> cancelledRef m \<and> i < totalCount m"
    then have "0 < length (workers m)" using sh by (auto simp: shape_def workerCount_def)
    moreover from this have "workers m ! 0 = Exited" using fe h by (simp add: finished_exited_def)
    ultimately have "totalCount m < nextIndex m" using exit_reasonD [OF er, of 0] h by blast
    with h a show "length (receivers i (events m)) = 1" by simp
  qed
  from a b c show ?thesis by blast
qed

theorem claim_exactly_once_witness:
  "reachable scenario_final \<and> 1 \<le> concurrency scenario_final \<and> \<not> isProcessing scenario_final \<and>
   \<not> cancelledRef scenario_final \<and> (2::nat) < totalCount scenario_final \<and>
   Claim 0 2 \<in> set (events scenario_final) \<and>
   receivers 0 (events scenario_final) = [0] \<and> receivers 1 (events scenario_final) = [1] \<and>
   receivers 2 (events scenario_final) = [0] \<and>
   length (receivers 2 (events scenario_final)) = 1"
proof -
  have r: "reachable scenario_final" by (rule scenario_final_reachable)
  have h: "1 \<le> concurrency scenario_final \<and> \<not> isProcessing scenario_final \<and>
           \<not> cancelledRef scenario_final \<and> (2::nat) < totalCount scenario_final"
    by (simp add: scenario_final_def)
  have e: "Claim 0 2 \<in> set (events scenario_final) \<and>
           receivers 0 (events scenario_final) = [0] \<and> receivers 1 (events scenario_final) = [1] \<and>
           receivers 2 (events scenario_final) = [0]"
    by (simp add: scenario_final_def)
  from claim_exactly_once [OF r, of 2 0 0] r h e show ?thesis by simp
qed

section \<open>Terminal records\<close>

text \<open>
  C4. From any state of a run, through any further actions the scheduler allows (worker
  steps in any interleaving, \<^verbatim>\<open>handleCancel\<close> at any moment, the final sweep): a record
  whose status is success, error or cancelled is the same record afterwards, status and
  every other field.
\<close>

theorem terminal_never_overwritten:
  assumes "reachable m" and "run as m = Some m'" and "i < totalCount m"
    and "terminal (status (results m ! i))"
  shows "results m' ! i = results m ! i"
  using assms by (rule run_keeps_terminal)

theorem terminal_never_overwritten_witness:
  "reachable scenario_mid \<and> run (drop 7 scenario_schedule) scenario_mid = Some scenario_final \<and>
   (0::nat) < totalCount scenario_mid \<and> terminal (status (results scenario_mid ! 0)) \<and>
   status (results scenario_mid ! 0) = Success \<and>
   results scenario_final ! 0 = results scenario_mid ! 0"
proof -
  have r: "reachable scenario_mid" by (rule scenario_mid_reachable)
  have t: "(0::nat) < totalCount scenario_mid" by (simp add: scenario_mid_def)
  have s: "status (results scenario_mid ! 0) = Success" by (simp add: scenario_mid_def)
  then have u: "terminal (status (results scenario_mid ! 0))" by (simp add: terminal_def)
  from terminal_never_overwritten [OF r scenario_run_rest t u] r scenario_run_rest t u s
  show ?thesis by simp
qed

section \<open>Bounded concurrency\<close>

lemma processing_bounded:
  assumes "pool_inv m"
  shows "getProcessingCount m \<le> length (workers m)"
proof -
  from assms have sh: "shape m" and po: "processing_owned m" by (simp_all add: pool_inv_def)
  have len: "length (results m) = totalCount m" using sh by (simp add: shape_def)
  let ?ix = "\<lambda>w. case workers m ! w of Claimed i \<Rightarrow> i | Awaiting i \<Rightarrow> i | _ \<Rightarrow> 0"
  let ?P = "{i. i < length (results m) \<and> status (results m ! i) = Processing}"
  have "?P \<subseteq> ?ix ` {..< length (workers m)}"
  proof
    fix i assume "i \<in> ?P"
    then obtain w where w: "w < length (workers m)" "holds (workers m ! w) i"
      using processing_ownedD [OF po, of i] len by auto
    then have "?ix w = i" by (auto simp: holds_def)
    with w(1) show "i \<in> ?ix ` {..< length (workers m)}" by blast
  qed
  then have "card ?P \<le> card (?ix ` {..< length (workers m)})"
    by (intro card_mono) simp_all
  also have "\<dots> \<le> card {..< length (workers m)}" by (rule card_image_le) simp
  finally have "card ?P \<le> length (workers m)" by simp
  then show ?thesis by (simp add: getProcessingCount_def length_filter_conv_card)
qed

text \<open>
  C7. In every state of a run with a concurrency of at least 1: the \<^verbatim>\<open>workers\<close> array
  has exactly \<^verbatim>\<open>min(concurrency, totalCount)\<close> entries, the number of records in
  processing is at most that number (with concurrency 3 and 100 items, at most 3), and
  when the run is complete every one of these workers has been called and has returned.
\<close>

theorem bounded_processing:
  assumes "reachable m" and "1 \<le> concurrency m"
  shows "int (length (workers m)) = min (concurrency m) (int (totalCount m)) \<and>
         getProcessingCount m \<le> length (workers m) \<and>
         (\<not> isProcessing m \<longrightarrow> list_all (\<lambda>p. p = Exited) (workers m))"
proof -
  have inv: "pool_inv m" using assms(1) by (rule inv_reachable)
  then have sh: "shape m" and fe: "finished_exited m" by (simp_all add: pool_inv_def)
  have a: "int (length (workers m)) = min (concurrency m) (int (totalCount m))"
    using sh assms(2) by (simp add: shape_def workerCount_def)
  have c: "\<not> isProcessing m \<longrightarrow> list_all (\<lambda>p. p = Exited) (workers m)"
    using fe by (simp add: finished_exited_def list_all_length)
  from a processing_bounded [OF inv] c show ?thesis by blast
qed

theorem bounded_processing_witness:
  "reachable scenario_busy \<and> 1 \<le> concurrency scenario_busy \<and>
   concurrency scenario_busy = 2 \<and> totalCount scenario_busy = 3 \<and>
   length (workers scenario_busy) = 2 \<and> getProcessingCount scenario_busy = 2 \<and>
   getProcessingCount scenario_busy \<le> length (workers scenario_busy)"
proof -
  have r: "reachable scenario_busy" by (rule scenario_busy_reachable)
  have c: "1 \<le> concurrency scenario_busy" by (simp add: scenario_busy_def)
  have n: "concurrency scenario_busy = 2 \<and> totalCount scenario_busy = 3 \<and>
           length (workers scenario_busy) = 2 \<and> getProcessingCount scenario_busy = 2"
    by (simp add: scenario_busy_def getProcessingCount_def)
  from bounded_processing [OF r c] r c n show ?thesis by simp
qed

section \<open>Cancellation\<close>



section \<open>One remote call per processed item\<close>






section \<open>Deduplication of the work list\<close>

lemma set_first_occurrences: "set (first_occurrences xs) = set xs"
  by (induction xs rule: first_occurrences.induct) auto

lemma distinct_first_occurrences: "distinct (first_occurrences xs)"
  by (induction xs rule: first_occurrences.induct) (auto simp: set_first_occurrences)

text \<open>
  C5, as the claim states it, fails at the status refresh: \<^verbatim>\<open>startProcessing\<close> builds
  one record for every element of \<^verbatim>\<open>organizationUuids\<close>, duplicates included, and
  reports nothing. For the identifiers a, b, a, c, b the work list has five entries.
\<close>

theorem refresh_keeps_duplicates_counterexample:
  "items (startProcessing [''a'', ''b'', ''a'', ''c'', ''b''] (mount StatusRefresh 3)) =
     [''a'', ''b'', ''a'', ''c'', ''b''] \<and>
   length (results (startProcessing [''a'', ''b'', ''a'', ''c'', ''b''] (mount StatusRefresh 3))) = 5 \<and>
   totalCount (startProcessing [''a'', ''b'', ''a'', ''c'', ''b''] (mount StatusRefresh 3)) = 5 \<and>
   toasts (startProcessing [''a'', ''b'', ''a'', ''c'', ''b''] (mount StatusRefresh 3)) = []"
  by (simp add: startProcessing_def startPool_def mount_def)

text \<open>
  C5, amended. A credential import that has at least one non-empty line builds its work
  list, and one record per entry, from the trimmed non-empty lines with exact-match
  deduplication that keeps the first occurrence of each line in order (\<^verbatim>\<open>new Set\<close> does
  what the words of the specification say), and calls \<^verbatim>\<open>toast.info\<close> with the number of
  lines removed when that number is positive. The status refresh uses the list of
  identifiers it is given as it is and reports nothing.
\<close>

theorem work_list_deduplicated:
  assumes "rawLines cookies \<noteq> []"
  shows "items (handleSubmit cookies m) = first_occurrences (rawLines cookies) \<and>
         map item (results (handleSubmit cookies m)) = first_occurrences (rawLines cookies) \<and>
         distinct (items (handleSubmit cookies m)) \<and>
         set (items (handleSubmit cookies m)) = set (rawLines cookies) \<and>
         removedCount (rawLines cookies) =
           length (rawLines cookies) - length (first_occurrences (rawLines cookies)) \<and>
         toasts (handleSubmit cookies m) =
           toasts m @ (if 0 < removedCount (rawLines cookies)
                       then [removedCount (rawLines cookies)] else []) \<and>
         items (startProcessing organizationUuids m) = organizationUuids \<and>
         toasts (startProcessing organizationUuids m) = toasts m"
  using assms
  by (simp add: handleSubmit_def Let_def startPool_def startProcessing_def removedCount_def
      uniqueLines_first_occurrences set_first_occurrences distinct_first_occurrences comp_def)

theorem work_list_deduplicated_witness:
  "rawLines example_cookies = [''a'', ''b'', ''a'', ''c'', ''b''] \<and>
   rawLines example_cookies \<noteq> [] \<and>
   items (handleSubmit example_cookies (mount CookieAdd 3)) = [''a'', ''b'', ''c''] \<and>
   map item (results (handleSubmit example_cookies (mount CookieAdd 3))) = [''a'', ''b'', ''c''] \<and>
   toasts (handleSubmit example_cookies (mount CookieAdd 3)) = [2]"
proof -
  have l: "rawLines example_cookies = [''a'', ''b'', ''a'', ''c'', ''b'']" by (rule example_lines)
  then have n: "rawLines example_cookies \<noteq> []" by simp
  from work_list_deduplicated [OF n, of "mount CookieAdd 3"] l show ?thesis
    by (simp add: mount_def)
qed

section \<open>Submissions that the specification rejects\<close>





section \<open>Progress\<close>




section \<open>Progress before any submission\<close>


end
